theory Spec2Isabelle
  imports Main
begin

text \<open>
  A model of \<^verbatim>\<open>src/components/userComponent/UserComponent.tsx\<close>: the component
  \<^verbatim>\<open>UserComponent\<close> (state, the two effects, the query and the returned tree) and the
  component \<^verbatim>\<open>Card\<close>. A component function is a function from its state or props to an
  element tree, with the exceptions it can raise as values; the effects, the timer and
  the fetch become steps on an explicit world. Strings are lists of characters, one
  for each code unit of the JavaScript string.
\<close>

section \<open>JavaScript values and property access\<close>

text \<open>
  The payload returned by \<^verbatim>\<open>fetchData\<close> is untyped at run time, so the component
  state holds an arbitrary JSON-shaped value. Objects are association lists; a lookup
  takes the first binding of a key. Numbers are the integers (the component only
  passes them on).
\<close>

datatype jsval =
    JUndefined
  | JNull
  | JBool bool
  | JNum int
  | JStr string
  | JArr "jsval list"
  | JObj "(string \<times> jsval) list"

datatype error = TypeError

fun nullish :: "jsval \<Rightarrow> bool" where
  "nullish JUndefined = True"
| "nullish JNull = True"
| "nullish _ = False"

text \<open>
  \<^verbatim>\<open>v.p\<close>: reading a property of \<^verbatim>\<open>undefined\<close> or \<^verbatim>\<open>null\<close> raises a TypeError; an
  object yields the bound value or \<^verbatim>\<open>undefined\<close>; booleans, numbers, strings and arrays
  have none of the properties this component reads (\<^verbatim>\<open>data\<close>, \<^verbatim>\<open>user\<close>, \<^verbatim>\<open>login\<close>,
  \<^verbatim>\<open>name\<close>, \<^verbatim>\<open>avatarUrl\<close>, \<^verbatim>\<open>url\<close>, \<^verbatim>\<open>followers\<close>, \<^verbatim>\<open>following\<close>, \<^verbatim>\<open>totalCount\<close>,
  \<^verbatim>\<open>repositories\<close>, \<^verbatim>\<open>nodes\<close>, \<^verbatim>\<open>id\<close>).
\<close>

fun member :: "jsval \<Rightarrow> string \<Rightarrow> error + jsval" where
  "member JUndefined p = Inl TypeError"
| "member JNull p = Inl TypeError"
| "member (JObj kvs) p = Inr (case map_of kvs p of None \<Rightarrow> JUndefined | Some v \<Rightarrow> v)"
| "member _ p = Inr JUndefined"

text \<open>Sequencing of computations that may raise: the first exception aborts the rest.\<close>

fun and_then :: "error + 'a \<Rightarrow> ('a \<Rightarrow> error + 'b) \<Rightarrow> error + 'b" where
  "and_then (Inl e) f = Inl e"
| "and_then (Inr x) f = f x"

fun map_res :: "('a \<Rightarrow> error + 'b) \<Rightarrow> 'a list \<Rightarrow> error + 'b list" where
  "map_res f [] = Inr []"
| "map_res f (x # xs) =
     and_then (f x) (\<lambda>y. and_then (map_res f xs) (\<lambda>ys. Inr (y # ys)))"

text \<open>
  \<^verbatim>\<open>v?.p\<close> as a whole expression: \<^verbatim>\<open>undefined\<close> when \<^verbatim>\<open>v\<close> is nullish. It cannot raise.
\<close>

definition opt_member :: "jsval \<Rightarrow> string \<Rightarrow> jsval" where
  "opt_member v p =
     (if nullish v then JUndefined
      else (case member v p of Inl e \<Rightarrow> JUndefined | Inr x \<Rightarrow> x))"

text \<open>
  \<^verbatim>\<open>v?.p.q\<close>: the optional link short-circuits the whole chain when \<^verbatim>\<open>v\<close> is nullish;
  otherwise \<^verbatim>\<open>.q\<close> is an ordinary access on \<^verbatim>\<open>v.p\<close> and raises when that is nullish.
\<close>

definition opt_chain2 :: "jsval \<Rightarrow> string \<Rightarrow> string \<Rightarrow> error + jsval" where
  "opt_chain2 v p q =
     (if nullish v then Inr JUndefined
      else and_then (member v p) (\<lambda>x. member x q))"

section \<open>The interfaces User and Repository\<close>

record Repository =
  repo_id :: string
  repo_name :: string
  repo_url :: string

record User =
  login :: string
  user_name :: string
  avatarUrl :: string
  user_url :: string
  followers_totalCount :: int
  following_totalCount :: int
  repositories_nodes :: "Repository list"

definition repo_to_js :: "Repository \<Rightarrow> jsval" where
  "repo_to_js r =
     JObj [(''id'', JStr (repo_id r)), (''name'', JStr (repo_name r)),
           (''url'', JStr (repo_url r))]"

definition user_to_js :: "User \<Rightarrow> jsval" where
  "user_to_js u =
     JObj [(''login'', JStr (login u)),
           (''name'', JStr (user_name u)),
           (''avatarUrl'', JStr (avatarUrl u)),
           (''url'', JStr (user_url u)),
           (''followers'', JObj [(''totalCount'', JNum (followers_totalCount u))]),
           (''following'', JObj [(''totalCount'', JNum (following_totalCount u))]),
           (''repositories'', JObj [(''nodes'', JArr (map repo_to_js (repositories_nodes u)))])]"

section \<open>Element trees\<close>

text \<open>
  What a component function returns: elements with a tag, the attributes as written
  (props and \<^verbatim>\<open>key\<close>) and children. An attribute is a value, one of the component's
  state setters, or an imported asset. A child is an
  element, literal text, an embedded expression \<^verbatim>\<open>{e}\<close>, or the array of elements that
  \<^verbatim>\<open>map\<close> produced.
\<close>

datatype propval = Val jsval | Setter string | Imported string

datatype node =
    Elem string "(string \<times> propval) list" "node list"
  | Text string
  | Expr jsval
  | Items "node list"

fun descendants :: "node \<Rightarrow> node list" where
  "descendants (Elem t ps cs) = Elem t ps cs # concat (map descendants cs)"
| "descendants (Items cs) = concat (map descendants cs)"
| "descendants (Text s) = [Text s]"
| "descendants (Expr v) = [Expr v]"

fun has_tag :: "string \<Rightarrow> node \<Rightarrow> bool" where
  "has_tag t (Elem t' ps cs) = (t' = t)"
| "has_tag t _ = False"

definition by_tag :: "string \<Rightarrow> node \<Rightarrow> node list" where
  "by_tag t n = filter (has_tag t) (descendants n)"

fun attr :: "node \<Rightarrow> string \<Rightarrow> propval option" where
  "attr (Elem t ps cs) a = map_of ps a"
| "attr _ a = None"

text \<open>The values of the embedded expressions of a tree, in document order.\<close>

fun exprs :: "node \<Rightarrow> jsval list" where
  "exprs (Elem t ps cs) = concat (map exprs cs)"
| "exprs (Items cs) = concat (map exprs cs)"
| "exprs (Text s) = []"
| "exprs (Expr v) = [v]"

section \<open>Card\<close>

definition Card :: "string \<Rightarrow> string \<Rightarrow> node" where
  "Card name url =
     Elem ''CardStyles'' [(''data-testid'', Val (JStr ''card''))]
       [Elem ''div'' [(''key'', Val (JStr name)), (''className'', Val (JStr ''card__box''))]
          [Elem ''h3'' [(''className'', Val (JStr ''card__box__title''))] [Expr (JStr name)],
           Elem ''a'' [(''className'', Val (JStr ''card__box__url'')),
                       (''href'', Val (JStr url)),
                       (''target'', Val (JStr ''_blank''))]
             [Expr (JStr url)]]]"

section \<open>UserComponent: state and render\<close>

record view_state =
  userData :: jsval
  filteredRepo :: string
  loading :: bool

text \<open>The three \<^verbatim>\<open>useState\<close> initial values.\<close>

definition initial_state :: view_state where
  "initial_state = \<lparr>userData = JNull, filteredRepo = [], loading = False\<rparr>"

definition spinner :: node where
  "spinner = Elem ''div'' [(''className'', Val (JStr ''loading-spinner''))] []"

definition not_found_img :: node where
  "not_found_img =
     Elem ''img'' [(''src'', Imported ''error404''), (''alt'', Val (JStr ''Error 404''))] []"

text \<open>
  One call of the list collaborator, as the callback of \<^verbatim>\<open>map\<close> builds it: the key is
  read first and raises on a nullish element.
\<close>

definition repository_item :: "string \<Rightarrow> jsval \<Rightarrow> error + node" where
  "repository_item flt repository =
     and_then (member repository ''id'') (\<lambda>k.
       Inr (Elem ''UserRepositories''
              [(''key'', Val k), (''filter'', Val (JStr flt)),
               (''repositories'', Val (JArr [repository]))] []))"

text \<open>
  \<^verbatim>\<open>userData?.repositories.nodes.map(...)\<close>. Calling \<^verbatim>\<open>map\<close> on anything but an array
  raises (the property is nullish or not callable).
\<close>

definition repositories_map :: "jsval \<Rightarrow> string \<Rightarrow> error + node" where
  "repositories_map ud flt =
     (if nullish ud then Inr (Expr JUndefined)
      else and_then (member ud ''repositories'') (\<lambda>r.
           and_then (member r ''nodes'') (\<lambda>n.
             (case n of
                JArr rs \<Rightarrow> and_then (map_res (repository_item flt) rs) (\<lambda>xs. Inr (Items xs))
              | _ \<Rightarrow> Inl TypeError))))"

definition user_info :: "jsval \<Rightarrow> error + node" where
  "user_info ud =
     and_then (opt_chain2 ud ''followers'' ''totalCount'') (\<lambda>followers.
     and_then (opt_chain2 ud ''following'' ''totalCount'') (\<lambda>following.
       Inr (Elem ''div'' [(''className'', Val (JStr ''user__info''))]
         [Elem ''img'' [(''src'', Val (opt_member ud ''avatarUrl'')),
                        (''alt'', Val (JStr ''User Logo'')),
                        (''className'', Val (JStr ''user__info__pic''))] [],
          Elem ''div'' [(''className'', Val (JStr ''user__info__global''))]
            [Elem ''p'' [(''className'', Val (JStr ''user__info__global__username''))]
               [Expr (opt_member ud ''login'')],
             Elem ''p'' [(''className'', Val (JStr ''user__info__global__name''))]
               [Expr (opt_member ud ''name'')],
             Elem ''div'' [(''className'', Val (JStr ''user__info__global__social''))]
               [Elem ''p'' [(''className'', Val (JStr ''user__info__global__social__followers''))]
                  [Expr followers,
                   Elem ''span''
                     [(''className'', Val (JStr ''user__info__global__social__followers__span''))]
                     [Text '' Followers'']],
                Elem ''p'' [(''className'', Val (JStr ''user__info__global__social__following''))]
                  [Expr following,
                   Elem ''span''
                     [(''className'', Val (JStr ''user__info__global__social__following__span''))]
                     [Text '' Following'']]],
             Elem ''a'' [(''href'', Val (opt_member ud ''url'')),
                         (''target'', Val (JStr ''_blank'')),
                         (''className'', Val (JStr ''user__info__global__github''))]
               [Elem ''span'' [] [Text ''Github Profile''], Text '' '',
                Elem ''FiGithub'' [] []]]])))"

definition user_repositories :: "jsval \<Rightarrow> string \<Rightarrow> error + node" where
  "user_repositories ud flt =
     and_then (repositories_map ud flt) (\<lambda>items.
       Inr (Elem ''div'' [(''className'', Val (JStr ''user__info__repositories''))]
         [Elem ''SearchBar'' [(''filter'', Val (JStr flt)),
                              (''setFilter'', Setter ''setFilteredRepo'')] [],
          Elem ''div'' [(''className'', Val (JStr ''user__info__repositories__map''))]
            [items]]))"

definition profile_view :: "view_state \<Rightarrow> error + node" where
  "profile_view st =
     and_then (user_info (userData st)) (\<lambda>info.
     and_then (user_repositories (userData st) (filteredRepo st)) (\<lambda>repos.
       Inr (Elem ''Fragment'' [] [info, repos])))"

text \<open>The returned tree; \<^verbatim>\<open>userData === null\<close> is strict, so it is false of \<^verbatim>\<open>undefined\<close>.\<close>

definition render :: "view_state \<Rightarrow> error + node" where
  "render st =
     (if loading st then Inr (Elem ''UserComponentStyles'' [] [spinner])
      else if userData st = JNull then Inr (Elem ''UserComponentStyles'' [] [not_found_img])
      else and_then (profile_view st) (\<lambda>v. Inr (Elem ''UserComponentStyles'' [] [v])))"

section \<open>UserComponent: username and query\<close>

text \<open>\<^verbatim>\<open>location.pathname.substring(1)\<close>: the path without its first character.\<close>

definition username :: "string \<Rightarrow> string" where
  "username pathname = drop 1 pathname"

abbreviation nl :: char where
  "nl \<equiv> CHR 0x0A"

abbreviation dq :: char where
  "dq \<equiv> CHR 0x22"

text \<open>
  The template literal: its text before the substitution, its text after it, and the
  username spliced in between as it is.
\<close>

definition query_head :: string where
  "query_head =
     ''query {'' @ [nl] @
     ''        user(login: '' @ [dq]"

definition query_tail :: string where
  "query_tail =
     [dq] @ '') {'' @ [nl] @
     ''            login'' @ [nl] @
     ''            name'' @ [nl] @
     ''            avatarUrl'' @ [nl] @
     ''            url'' @ [nl] @
     ''            followers {'' @ [nl] @
     ''                totalCount'' @ [nl] @
     ''            }'' @ [nl] @
     ''            following {'' @ [nl] @
     ''                totalCount'' @ [nl] @
     ''            }'' @ [nl] @
     ''            repositories(first: 50) {'' @ [nl] @
     ''                nodes {'' @ [nl] @
     ''                id'' @ [nl] @
     ''                name'' @ [nl] @
     ''                url'' @ [nl] @
     ''                }'' @ [nl] @
     ''            }'' @ [nl] @
     ''        }'' @ [nl] @
     ''    }''"

definition query :: "string \<Rightarrow> string" where
  "query uname = query_head @ uname @ query_tail"

section \<open>UserComponent: effects, timers and the fetch\<close>

text \<open>
  The component in its environment. Time is a count of milliseconds. Every mount
  creates a new instance with fresh state; a timer or a fetch belongs to the instance
  that started it, and a setter called for an instance that is no longer the mounted one
  changes nothing on screen and is only recorded in \<open>stale\<close>. \<open>issued\<close> lists the
  calls of \<^verbatim>\<open>fetchData\<close>, \<open>console\<close> the calls of \<^verbatim>\<open>console.error\<close>.

  Every state change of the mounted instance is followed by a render. The component
  catches nothing, so a render that raises tears the component down: it is unmounted
  with its state as it was, and its effects run no more.
\<close>

datatype outcome = Resolved jsval | Rejected jsval

datatype diag = ConsoleError string jsval

datatype call = SetUserData jsval | SetLoading bool

record world =
  view :: view_state
  pathname :: string
  mounted :: bool
  inst :: nat
  now :: nat
  timers :: "(nat \<times> nat) list"
  inflight :: "(string \<times> nat) list"
  issued :: "string list"
  console :: "diag list"
  stale :: "(nat \<times> call) list"

definition boot :: "string \<Rightarrow> world" where
  "boot p =
     \<lparr>view = initial_state, pathname = p, mounted = False, inst = 0, now = 0,
      timers = [], inflight = [], issued = [], console = [], stale = []\<rparr>"

definition commit :: "world \<Rightarrow> world" where
  "commit w = (if mounted w \<and> isl (render (view w)) then w\<lparr>mounted := False\<rparr> else w)"

definition setUserData :: "nat \<Rightarrow> jsval \<Rightarrow> world \<Rightarrow> world" where
  "setUserData i v w =
     (if mounted w \<and> i = inst w then commit (w\<lparr>view := (view w)\<lparr>userData := v\<rparr>\<rparr>)
      else w\<lparr>stale := stale w @ [(i, SetUserData v)]\<rparr>)"

definition setLoading :: "nat \<Rightarrow> bool \<Rightarrow> world \<Rightarrow> world" where
  "setLoading i b w =
     (if mounted w \<and> i = inst w then commit (w\<lparr>view := (view w)\<lparr>loading := b\<rparr>\<rparr>)
      else w\<lparr>stale := stale w @ [(i, SetLoading b)]\<rparr>)"

text \<open>
  The body of \<^verbatim>\<open>fetchDataUser\<close> after the \<^verbatim>\<open>await\<close>, for the instance \<open>i\<close> that issued
  the request: \<^verbatim>\<open>setUserData(data?.data?.user)\<close>, or the \<^verbatim>\<open>catch\<close> block, which only logs.
\<close>

fun fetchDataUser_settled :: "nat \<Rightarrow> outcome \<Rightarrow> world \<Rightarrow> world" where
  "fetchDataUser_settled i (Resolved data) w =
     setUserData i (opt_member (opt_member data ''data'') ''user'') w"
| "fetchDataUser_settled i (Rejected err) w =
     w\<lparr>console := console w @ [ConsoleError ''Error fetching user data:'' err]\<rparr>"

text \<open>The effect with dependency \<^verbatim>\<open>[query]\<close>: one call of \<^verbatim>\<open>fetchData\<close>.\<close>

definition fetch_effect :: "world \<Rightarrow> world" where
  "fetch_effect w =
     (let q = query (username (pathname w))
      in w\<lparr>issued := issued w @ [q], inflight := inflight w @ [(q, inst w)]\<rparr>)"

text \<open>
  The effect with no dependency: \<^verbatim>\<open>setLoading(true)\<close> and a timer of 3000 ms. It
  returns no cleanup function.
\<close>

definition loading_effect :: "world \<Rightarrow> world" where
  "loading_effect w =
     (setLoading (inst w) True w)\<lparr>timers := timers w @ [(now w + 3000, inst w)]\<rparr>"

definition mount :: "world \<Rightarrow> world" where
  "mount w =
     loading_effect
       (fetch_effect (w\<lparr>mounted := True, inst := Suc (inst w), view := initial_state\<rparr>))"

text \<open>
  Time passes: every timer whose deadline is reached runs its callback
  \<^verbatim>\<open>setLoading(false)\<close>, in the order of scheduling.
\<close>

definition advance :: "nat \<Rightarrow> world \<Rightarrow> world" where
  "advance d w =
     (let t = now w + d
      in fold (\<lambda>(dl, i). setLoading i False)
           (filter (\<lambda>(dl, i). dl \<le> t) (timers w))
           (w\<lparr>now := t, timers := filter (\<lambda>(dl, i). \<not> dl \<le> t) (timers w)\<rparr>))"

datatype event =
    Mount
  | Unmount
  | Navigate string
  | Settle nat outcome
  | Advance nat
  | Input string

text \<open>
  \<open>Navigate\<close> renders a mounted component again with the new location; the fetch
  effect runs again only when its dependency, the query, has changed. \<open>Settle k\<close>
  settles the \<open>k\<close>-th request in flight. \<open>Input\<close> is the search bar calling
  \<^verbatim>\<open>setFilter\<close>.
\<close>

fun step :: "event \<Rightarrow> world \<Rightarrow> world" where
  "step Mount w = (if mounted w then w else mount w)"
| "step Unmount w = w\<lparr>mounted := False\<rparr>"
| "step (Navigate p) w =
     (if mounted (commit w) \<and> query (username p) \<noteq> query (username (pathname w))
      then fetch_effect ((commit w)\<lparr>pathname := p\<rparr>)
      else (commit w)\<lparr>pathname := p\<rparr>)"
| "step (Settle k out) w =
     (if k < length (inflight w)
      then fetchDataUser_settled (snd (inflight w ! k)) out
             (w\<lparr>inflight := take k (inflight w) @ drop (Suc k) (inflight w)\<rparr>)
      else w)"
| "step (Advance d) w = advance d w"
| "step (Input s) w =
     (if mounted w then commit (w\<lparr>view := (view w)\<lparr>filteredRepo := s\<rparr>\<rparr>) else w)"

definition run :: "event list \<Rightarrow> world \<Rightarrow> world" where
  "run evs w = fold step evs w"

fun elapsed :: "event list \<Rightarrow> nat" where
  "elapsed [] = 0"
| "elapsed (Advance d # evs) = d + elapsed evs"
| "elapsed (e # evs) = elapsed evs"

fun remounts :: "event \<Rightarrow> bool" where
  "remounts Mount = True"
| "remounts Unmount = True"
| "remounts _ = False"

section \<open>Tokens of the query language\<close>

text \<open>
  The query is a document of the GraphQL language, and what it requests is read off its
  tokens. This is the lexical grammar of that language (names, integers, punctuators,
  quoted strings with their escapes, comments; white space, line ends and commas are
  ignored) as a one-pass scanner. Block strings, Unicode escapes, floats, negative
  numbers and the spread punctuator are left out; none of them occurs in the template.
\<close>

datatype token = Punct char | Name string | IntTok string | StrTok string

datatype lex_mode = Idle | InName string | InInt string | InStr string | InEsc string | InComment

text \<open>
  A source character is a tab, a line end, or any character from the space upwards,
  that is one with any of its three highest bits set.
\<close>

definition source_char :: "char \<Rightarrow> bool" where
  "source_char c \<longleftrightarrow>
     c = CHR 0x09 \<or> c = CHR 0x0A \<or> c = CHR 0x0D \<or> digit5 c \<or> digit6 c \<or> digit7 c"

definition ignored :: "char \<Rightarrow> bool" where
  "ignored c \<longleftrightarrow> c \<in> set [CHR '' '', CHR 0x09, CHR 0x0A, CHR 0x0D, CHR '','']"

definition punctuator :: "char \<Rightarrow> bool" where
  "punctuator c \<longleftrightarrow> c \<in> set ''!$&():=@[]{|}''"

definition digit :: "char \<Rightarrow> bool" where
  "digit c \<longleftrightarrow> c \<in> set ''0123456789''"

definition name_start :: "char \<Rightarrow> bool" where
  "name_start c \<longleftrightarrow>
     c \<in> set ''_abcdefghijklmnopqrstuvwxyzABCDEFGHIJKLMNOPQRSTUVWXYZ''"

definition line_end :: "char \<Rightarrow> bool" where
  "line_end c \<longleftrightarrow> c = CHR 0x0A \<or> c = CHR 0x0D"

text \<open>The characters that may stand for themselves inside a quoted string.\<close>

definition string_char :: "char \<Rightarrow> bool" where
  "string_char c \<longleftrightarrow> source_char c \<and> c \<noteq> dq \<and> c \<noteq> CHR 0x5C \<and> \<not> line_end c"

definition unescape :: "char \<Rightarrow> char option" where
  "unescape c =
     map_of [(dq, dq), (CHR 0x5C, CHR 0x5C), (CHR ''/'', CHR ''/''), (CHR ''b'', CHR 0x08),
             (CHR ''f'', CHR 0x0C), (CHR ''n'', CHR 0x0A), (CHR ''r'', CHR 0x0D),
             (CHR ''t'', CHR 0x09)] c"

text \<open>What the scanner does with a character that begins a new lexeme.\<close>

definition start :: "char \<Rightarrow> (token list \<times> lex_mode) option" where
  "start c =
     (if ignored c then Some ([], Idle)
      else if c = CHR ''#'' then Some ([], InComment)
      else if c = dq then Some ([], InStr [])
      else if punctuator c then Some ([Punct c], Idle)
      else if name_start c then Some ([], InName [c])
      else if digit c then Some ([], InInt [c])
      else None)"

fun after :: "token \<Rightarrow> (token list \<times> lex_mode) option \<Rightarrow> (token list \<times> lex_mode) option" where
  "after t None = None"
| "after t (Some (ts, m)) = Some (t # ts, m)"

fun advance_lex :: "lex_mode \<Rightarrow> char \<Rightarrow> (token list \<times> lex_mode) option" where
  "advance_lex Idle c = start c"
| "advance_lex (InName a) c =
     (if name_start c \<or> digit c then Some ([], InName (a @ [c]))
      else after (Name a) (start c))"
| "advance_lex (InInt a) c =
     (if digit c then Some ([], InInt (a @ [c]))
      else if name_start c then None
      else after (IntTok a) (start c))"
| "advance_lex (InStr a) c =
     (if c = dq then Some ([StrTok a], Idle)
      else if c = CHR 0x5C then Some ([], InEsc a)
      else if string_char c then Some ([], InStr (a @ [c]))
      else None)"
| "advance_lex (InEsc a) c =
     (case unescape c of None \<Rightarrow> None | Some x \<Rightarrow> Some ([], InStr (a @ [x])))"
| "advance_lex InComment c =
     (if line_end c then Some ([], Idle) else Some ([], InComment))"

fun finish :: "lex_mode \<Rightarrow> token list option" where
  "finish Idle = Some []"
| "finish (InName a) = Some [Name a]"
| "finish (InInt a) = Some [IntTok a]"
| "finish (InStr a) = None"
| "finish (InEsc a) = None"
| "finish InComment = Some []"

fun prepend :: "token list \<Rightarrow> token list option \<Rightarrow> token list option" where
  "prepend ts None = None"
| "prepend ts (Some r) = Some (ts @ r)"

fun scan :: "lex_mode \<Rightarrow> string \<Rightarrow> token list option" where
  "scan m [] = finish m"
| "scan m (c # cs) =
     (if source_char c
      then (case advance_lex m c of
              None \<Rightarrow> None
            | Some (ts, m') \<Rightarrow> prepend ts (scan m' cs))
      else None)"

definition gql_tokens :: "string \<Rightarrow> token list option" where
  "gql_tokens s = scan Idle s"

text \<open>
  The token sequence of the document that the specification describes for a username
  \<open>u\<close>: login, name, avatarUrl, url, the two counts, and the first 50 repositories
  with id, name and url.
\<close>

definition profile_query_tokens :: "string \<Rightarrow> token list" where
  "profile_query_tokens u =
     [Name ''query'', Punct (CHR ''{''),
        Name ''user'', Punct (CHR ''(''), Name ''login'', Punct (CHR '':''), StrTok u,
          Punct (CHR '')''), Punct (CHR ''{''),
          Name ''login'', Name ''name'', Name ''avatarUrl'', Name ''url'',
          Name ''followers'', Punct (CHR ''{''), Name ''totalCount'', Punct (CHR ''}''),
          Name ''following'', Punct (CHR ''{''), Name ''totalCount'', Punct (CHR ''}''),
          Name ''repositories'', Punct (CHR ''(''), Name ''first'', Punct (CHR '':''),
            IntTok ''50'', Punct (CHR '')''), Punct (CHR ''{''),
            Name ''nodes'', Punct (CHR ''{''), Name ''id'', Name ''name'', Name ''url'',
            Punct (CHR ''}''),
          Punct (CHR ''}''),
        Punct (CHR ''}''),
      Punct (CHR ''}'')]"

section \<open>Invariants of the runs\<close>

text \<open>
  In every reachable world, timers, requests in flight and late setter calls belong to
  instances that were created already.
\<close>

definition tidy :: "world \<Rightarrow> bool" where
  "tidy w \<longleftrightarrow>
     (\<forall>(dl, j)\<in>set (timers w). j \<le> inst w) \<and>
     (\<forall>(q, j)\<in>set (inflight w). j \<le> inst w) \<and>
     (\<forall>(j, c)\<in>set (stale w). j \<le> inst w)"

text \<open>
  What holds from a mount at time \<open>t0\<close> of instance \<open>i\<close> until the next unmount or
  mount event: the instance's only timer is the one for \<open>t0 + 3000\<close>; while that time
  is not reached the instance is mounted, the timer is pending and no setter call for
  the instance is late; and the loading flag is set exactly as long.
\<close>

definition armed :: "nat \<Rightarrow> nat \<Rightarrow> world \<Rightarrow> bool" where
  "armed t0 i w \<longleftrightarrow>
     inst w = i \<and>
     (\<forall>(dl, j)\<in>set (timers w). j \<le> i \<and> (j = i \<longrightarrow> t0 + 3000 = dl \<and> now w < dl)) \<and>
     (now w < t0 + 3000 \<longrightarrow>
        mounted w \<and> (t0 + 3000, i) \<in> set (timers w) \<and> (\<forall>(j, c)\<in>set (stale w). j < i)) \<and>
     (loading (view w) \<longleftrightarrow> now w < t0 + 3000) \<and>
     (\<forall>(q, j)\<in>set (inflight w). j \<le> i)"

section \<open>Properties\<close>

subsection \<open>Property access and render\<close>

lemma member_ok_iff: "(\<exists>x. member v p = Inr x) \<longleftrightarrow> \<not> nullish v"
  by (cases v) simp_all

lemma member_opt: "\<not> nullish v \<Longrightarrow> member v p = Inr (opt_member v p)"
  by (cases v) (simp_all add: opt_member_def)

lemma and_then_ok_iff:
  "(\<exists>v. and_then m f = Inr v) \<longleftrightarrow> (\<exists>x. m = Inr x \<and> (\<exists>v. f x = Inr v))"
  by (cases m) simp_all

lemma and_then_Inr_eq:
  "and_then m f = Inr v \<longleftrightarrow> (\<exists>x. m = Inr x \<and> f x = Inr v)"
  by (cases m) simp_all

lemma map_res_ok_iff:
  "(\<exists>ys. map_res f xs = Inr ys) \<longleftrightarrow> (\<forall>x\<in>set xs. \<exists>y. f x = Inr y)"
  by (induction xs) (auto simp: and_then_Inr_eq)

lemma map_res_total:
  "(\<And>x. x \<in> set xs \<Longrightarrow> f x = Inr (g x)) \<Longrightarrow> map_res f xs = Inr (map g xs)"
  by (induction xs) simp_all

lemma repository_item_ok_iff:
  "(\<exists>y. repository_item flt r = Inr y) \<longleftrightarrow> \<not> nullish r"
  by (cases r) (simp_all add: repository_item_def)

lemma repository_item_val:
  "\<not> nullish r \<Longrightarrow> repository_item flt r =
     Inr (Elem ''UserRepositories''
            [(''key'', Val (opt_member r ''id'')), (''filter'', Val (JStr flt)),
             (''repositories'', Val (JArr [r]))] [])"
  by (simp add: repository_item_def member_opt)

lemma error_eq: "(e::error) = TypeError"
  by (cases e) simp

lemma opt_chain2_ok_iff:
  "(\<exists>x. opt_chain2 v p q = Inr x) \<longleftrightarrow> (nullish v \<or> \<not> nullish (opt_member v p))"
  by (cases "nullish v") (simp_all add: opt_chain2_def member_opt member_ok_iff)

lemma user_info_ok_iff:
  "(\<exists>v. user_info ud = Inr v) \<longleftrightarrow>
     (nullish ud \<or> (\<not> nullish (opt_member ud ''followers'') \<and> \<not> nullish (opt_member ud ''following'')))"
  unfolding user_info_def and_then_ok_iff using opt_chain2_ok_iff by auto

lemma repositories_map_arr:
  "\<not> nullish ud \<Longrightarrow> opt_chain2 ud ''repositories'' ''nodes'' = Inr (JArr rs) \<Longrightarrow>
     repositories_map ud flt =
       and_then (map_res (repository_item flt) rs) (\<lambda>xs. Inr (Items xs))"
  by (auto simp: repositories_map_def opt_chain2_def and_then_Inr_eq)

lemma repositories_map_not_arr:
  "\<not> nullish ud \<Longrightarrow> \<forall>rs. opt_chain2 ud ''repositories'' ''nodes'' \<noteq> Inr (JArr rs) \<Longrightarrow>
     repositories_map ud flt = Inl TypeError"
proof -
  assume a: "\<not> nullish ud" "\<forall>rs. opt_chain2 ud ''repositories'' ''nodes'' \<noteq> Inr (JArr rs)"
  show ?thesis
  proof (cases "member ud ''repositories''")
    case (Inl e)
    then show ?thesis using a by (simp add: repositories_map_def error_eq)
  next
    case r: (Inr r)
    show ?thesis
    proof (cases "member r ''nodes''")
      case (Inl e)
      then show ?thesis using a r by (simp add: repositories_map_def error_eq)
    next
      case (Inr n)
      then show ?thesis using a r
        by (cases n) (simp_all add: repositories_map_def opt_chain2_def)
    qed
  qed
qed

lemma repositories_map_ok_iff:
  "(\<exists>v. repositories_map ud flt = Inr v) \<longleftrightarrow>
     (nullish ud \<or> (\<exists>rs. opt_chain2 ud ''repositories'' ''nodes'' = Inr (JArr rs) \<and> (\<forall>r\<in>set rs. \<not> nullish r)))"
proof (cases "nullish ud")
  case True
  then show ?thesis by (simp add: repositories_map_def)
next
  case False
  show ?thesis
  proof (cases "\<exists>rs. opt_chain2 ud ''repositories'' ''nodes'' = Inr (JArr rs)")
    case True
    then obtain rs where rs: "opt_chain2 ud ''repositories'' ''nodes'' = Inr (JArr rs)" by blast
    have "(\<exists>v. repositories_map ud flt = Inr v) \<longleftrightarrow> (\<forall>r\<in>set rs. \<not> nullish r)"
      unfolding repositories_map_arr [OF False rs] and_then_ok_iff
      using map_res_ok_iff [of "repository_item flt" rs]
      by (simp add: repository_item_ok_iff)
    then show ?thesis using False rs by simp
  next
    case no: False
    then have "repositories_map ud flt = Inl TypeError"
      using False by (simp add: repositories_map_not_arr)
    then show ?thesis using False no by simp
  qed
qed

lemma user_repositories_ok_iff:
  "(\<exists>v. user_repositories ud flt = Inr v) \<longleftrightarrow> (\<exists>v. repositories_map ud flt = Inr v)"
  by (simp add: user_repositories_def and_then_ok_iff)

lemma profile_view_ok_iff:
  "(\<exists>v. profile_view st = Inr v) \<longleftrightarrow>
     ((\<exists>v. user_info (userData st) = Inr v) \<and>
      (\<exists>v. repositories_map (userData st) (filteredRepo st) = Inr v))"
  by (simp add: profile_view_def and_then_ok_iff user_repositories_ok_iff)

lemma user_info_typed:
  "\<exists>info. user_info (user_to_js u) = Inr info \<and> by_tag ''UserRepositories'' info = []
     \<and> exprs info = [JStr (login u), JStr (user_name u), JNum (followers_totalCount u), JNum (following_totalCount u)]
     \<and> attr info ''className'' = Some (Val (JStr ''user__info''))"
  by (simp add: user_info_def user_to_js_def opt_chain2_def opt_member_def by_tag_def)

lemma map_res_repository_item:
  "\<forall>r\<in>set rs. \<not> nullish r \<Longrightarrow>
   map_res (repository_item flt) rs =
     Inr (map (\<lambda>r. Elem ''UserRepositories''
            [(''key'', Val (opt_member r ''id'')), (''filter'', Val (JStr flt)),
             (''repositories'', Val (JArr [r]))] []) rs)"
  by (rule map_res_total) (simp add: repository_item_val)

lemma repositories_map_typed:
  "repositories_map (user_to_js u) flt =
     Inr (Items (map (\<lambda>r. Elem ''UserRepositories''
            [(''key'', Val (JStr (repo_id r))), (''filter'', Val (JStr flt)),
             (''repositories'', Val (JArr [repo_to_js r]))] []) (repositories_nodes u)))"
proof -
  have nn: "\<forall>r\<in>set (map repo_to_js (repositories_nodes u)). \<not> nullish r"
    by (simp add: repo_to_js_def)
  have k: "\<And>r. opt_member (repo_to_js r) ''id'' = JStr (repo_id r)"
    by (simp add: opt_member_def repo_to_js_def)
  have "repositories_map (user_to_js u) flt =
      and_then (map_res (repository_item flt) (map repo_to_js (repositories_nodes u))) (\<lambda>xs. Inr (Items xs))"
    by (simp add: repositories_map_def user_to_js_def)
  then show ?thesis
    by (simp add: map_res_repository_item [OF nn] comp_def k)
qed

lemma by_tag_items_same:
  "\<forall>x\<in>set xs. \<exists>ps. x = Elem t ps [] \<Longrightarrow> concat (map descendants xs) = xs"
  by (induction xs) auto

lemma filter_same_tag:
  "\<forall>x\<in>set xs. \<exists>ps. x = Elem t ps [] \<Longrightarrow> filter (has_tag t) xs = xs"
  by (induction xs) auto

subsection \<open>Runs\<close>

lemma commit_frame [simp]:
  "inst (commit w) = inst w"
  "now (commit w) = now w"
  "timers (commit w) = timers w"
  "inflight (commit w) = inflight w"
  "issued (commit w) = issued w"
  "console (commit w) = console w"
  "stale (commit w) = stale w"
  "pathname (commit w) = pathname w"
  "view (commit w) = view w"
  by (simp_all add: commit_def)

lemma commit_mounted: "mounted (commit w) \<longleftrightarrow> mounted w \<and> \<not> isl (render (view w))"
  by (auto simp: commit_def)

lemma commit_loading: "loading (view w) \<Longrightarrow> commit w = w"
  by (simp add: commit_def render_def)


lemma commit_unmounted: "\<not> mounted w \<Longrightarrow> commit w = w"
  by (simp add: commit_def)

lemma setLoading_frame [simp]:
  "inst (setLoading i b w) = inst w"
  "now (setLoading i b w) = now w"
  "timers (setLoading i b w) = timers w"
  "inflight (setLoading i b w) = inflight w"
  "issued (setLoading i b w) = issued w"
  "console (setLoading i b w) = console w"
  "pathname (setLoading i b w) = pathname w"
  "userData (view (setLoading i b w)) = userData (view w)"
  "filteredRepo (view (setLoading i b w)) = filteredRepo (view w)"
  by (simp_all add: setLoading_def)

lemma setLoading_unmounted:
  "\<not> mounted w \<Longrightarrow> setLoading i b w = w\<lparr>stale := stale w @ [(i, SetLoading b)]\<rparr>"
  by (simp add: setLoading_def)

lemma setLoading_mounted_imp: "mounted (setLoading i b w) \<Longrightarrow> mounted w"
  by (simp add: setLoading_def commit_mounted split: if_splits)

lemma setUserData_frame [simp]:
  "inst (setUserData i v w) = inst w"
  "now (setUserData i v w) = now w"
  "timers (setUserData i v w) = timers w"
  "inflight (setUserData i v w) = inflight w"
  "issued (setUserData i v w) = issued w"
  "console (setUserData i v w) = console w"
  "pathname (setUserData i v w) = pathname w"
  "loading (view (setUserData i v w)) = loading (view w)"
  "filteredRepo (view (setUserData i v w)) = filteredRepo (view w)"
  by (simp_all add: setUserData_def)

lemma fire_frame [simp]:
  "inst (fold (\<lambda>(dl, i). setLoading i False) ts w) = inst w"
  "now (fold (\<lambda>(dl, i). setLoading i False) ts w) = now w"
  "timers (fold (\<lambda>(dl, i). setLoading i False) ts w) = timers w"
  "inflight (fold (\<lambda>(dl, i). setLoading i False) ts w) = inflight w"
  "issued (fold (\<lambda>(dl, i). setLoading i False) ts w) = issued w"
  "console (fold (\<lambda>(dl, i). setLoading i False) ts w) = console w"
  "pathname (fold (\<lambda>(dl, i). setLoading i False) ts w) = pathname w"
  "userData (view (fold (\<lambda>(dl, i). setLoading i False) ts w)) = userData (view w)"
  "filteredRepo (view (fold (\<lambda>(dl, i). setLoading i False) ts w)) = filteredRepo (view w)"
  by (induction ts arbitrary: w; simp add: split_def)+

lemma fire_mounted_imp:
  "mounted (fold (\<lambda>(dl, i). setLoading i False) ts w) \<Longrightarrow> mounted w"
proof (induction ts arbitrary: w)
  case Nil
  then show ?case by simp
next
  case (Cons t ts)
  obtain dl i where t: "t = (dl, i)" by (cases t)
  from Cons.prems have "mounted (fold (\<lambda>(dl, i). setLoading i False) ts (setLoading i False w))"
    by (simp add: t)
  then have "mounted (setLoading i False w)" by (rule Cons.IH)
  then show ?case by (rule setLoading_mounted_imp)
qed

lemma fire_keeps_mounted:
  "mounted w \<Longrightarrow> inst w \<notin> snd ` set ts \<Longrightarrow>
     mounted (fold (\<lambda>(dl, i). setLoading i False) ts w)"
proof (induction ts arbitrary: w)
  case Nil
  then show ?case by simp
next
  case (Cons t ts)
  obtain dl i where t: "t = (dl, i)" by (cases t)
  from Cons.prems have ne: "i \<noteq> inst w" and ni: "inst w \<notin> snd ` set ts"
    by (auto simp: t)
  from ne have e: "setLoading i False w = w\<lparr>stale := stale w @ [(i, SetLoading False)]\<rparr>"
    by (auto simp: setLoading_def)
  show ?case
    unfolding t using Cons.IH [of "setLoading i False w"] Cons.prems(1) ni by (simp add: e)
qed

lemma fire_loading:
  "loading (view (fold (\<lambda>(dl, i). setLoading i False) ts w)) =
     (if mounted w \<and> inst w \<in> snd ` set ts then False else loading (view w))"
proof (induction ts arbitrary: w)
  case Nil
  then show ?case by simp
next
  case (Cons t ts)
  obtain dl i where t: "t = (dl, i)" by (cases t)
  note ih = Cons.IH [of "setLoading i False w"]
  show ?case
  proof (cases "mounted w \<and> i = inst w")
    case True
    then have l: "\<not> loading (view (setLoading i False w))"
      by (simp add: setLoading_def)
    show ?thesis
      unfolding t using True ih l by simp
  next
    case False
    then have e: "setLoading i False w = w\<lparr>stale := stale w @ [(i, SetLoading False)]\<rparr>"
      by (auto simp: setLoading_def)
    show ?thesis
      unfolding t using False ih by (auto simp: e)
  qed
qed

lemma fire_stale_sub:
  "set (stale (fold (\<lambda>(dl, i). setLoading i False) ts w)) \<subseteq>
     set (stale w) \<union> {(i, SetLoading False) | i. i \<in> snd ` set ts}"
proof (induction ts arbitrary: w)
  case Nil
  then show ?case by simp
next
  case (Cons t ts)
  obtain dl i where t: "t = (dl, i)" by (cases t)
  have s: "set (stale (setLoading i False w)) \<subseteq> set (stale w) \<union> {(i, SetLoading False)}"
    by (auto simp: setLoading_def)
  show ?case
    unfolding t using Cons.IH [of "setLoading i False w"] s by auto
qed

lemma fire_unmounted:
  assumes "\<not> mounted w"
  shows "view (fold (\<lambda>(dl, i). setLoading i False) ts w) = view w"
    and "\<not> mounted (fold (\<lambda>(dl, i). setLoading i False) ts w)"
    and "set (stale (fold (\<lambda>(dl, i). setLoading i False) ts w)) =
           set (stale w) \<union> {(i, SetLoading False) | i. i \<in> snd ` set ts}"
  using assms
proof (induction ts arbitrary: w)
  case Nil
  {
    case 1 then show ?case by simp
  next
    case 2 then show ?case by simp
  next
    case 3 then show ?case by simp
  }
next
  case (Cons t ts)
  obtain dl i where t: "t = (dl, i)" by (cases t)
  {
    case 1
    then show ?case using Cons.IH(1) [of "w\<lparr>stale := stale w @ [(i, SetLoading False)]\<rparr>"]
      by (simp add: t setLoading_unmounted)
  next
    case 2
    then show ?case using Cons.IH(2) [of "w\<lparr>stale := stale w @ [(i, SetLoading False)]\<rparr>"]
      by (simp add: t setLoading_unmounted)
  next
    case 3
    then show ?case using Cons.IH(3) [of "w\<lparr>stale := stale w @ [(i, SetLoading False)]\<rparr>"]
      by (auto simp: t setLoading_unmounted)
  }
qed

lemma settled_frame [simp]:
  "inst (fetchDataUser_settled i out w) = inst w"
  "now (fetchDataUser_settled i out w) = now w"
  "timers (fetchDataUser_settled i out w) = timers w"
  "inflight (fetchDataUser_settled i out w) = inflight w"
  "issued (fetchDataUser_settled i out w) = issued w"
  "pathname (fetchDataUser_settled i out w) = pathname w"
  "loading (view (fetchDataUser_settled i out w)) = loading (view w)"
  "filteredRepo (view (fetchDataUser_settled i out w)) = filteredRepo (view w)"
  by (cases out; simp)+

lemma settled_stale:
  "set (stale (fetchDataUser_settled i out w)) \<subseteq>
     set (stale w) \<union> {(i, c) | c. \<not> (mounted w \<and> i = inst w)}"
  by (cases out) (auto simp: setUserData_def)

lemma settled_mounted_loading:
  "loading (view w) \<Longrightarrow> mounted (fetchDataUser_settled i out w) = mounted w"
  by (cases out) (simp_all add: setUserData_def commit_loading)

lemma fetch_effect_frame [simp]:
  "mounted (fetch_effect w) = mounted w"
  "inst (fetch_effect w) = inst w"
  "now (fetch_effect w) = now w"
  "timers (fetch_effect w) = timers w"
  "stale (fetch_effect w) = stale w"
  "console (fetch_effect w) = console w"
  "pathname (fetch_effect w) = pathname w"
  "view (fetch_effect w) = view w"
  "inflight (fetch_effect w) = inflight w @ [(query (username (pathname w)), inst w)]"
  "issued (fetch_effect w) = issued w @ [query (username (pathname w))]"
  by (simp_all add: fetch_effect_def Let_def)

lemma advance_frame [simp]:
  "inst (advance d w) = inst w"
  "now (advance d w) = now w + d"
  "timers (advance d w) = filter (\<lambda>(dl, i). \<not> dl \<le> now w + d) (timers w)"
  "inflight (advance d w) = inflight w"
  "issued (advance d w) = issued w"
  "console (advance d w) = console w"
  "pathname (advance d w) = pathname w"
  "userData (view (advance d w)) = userData (view w)"
  "filteredRepo (view (advance d w)) = filteredRepo (view w)"
  by (simp_all add: advance_def Let_def)

lemma advance_mounted_imp: "mounted (advance d w) \<Longrightarrow> mounted w"
  unfolding advance_def Let_def by (drule fire_mounted_imp) simp

lemma advance_loading:
  "loading (view (advance d w)) =
     (if mounted w \<and> (\<exists>dl. (dl, inst w) \<in> set (timers w) \<and> dl \<le> now w + d) then False
      else loading (view w))"
  by (force simp: advance_def Let_def fire_loading)

lemma advance_stale_sub:
  "set (stale (advance d w)) \<subseteq>
     set (stale w) \<union>
     {(i, SetLoading False) | i. \<exists>dl. (dl, i) \<in> set (timers w) \<and> dl \<le> now w + d}"
proof -
  have "set (stale (advance d w)) \<subseteq>
     set (stale w) \<union>
     {(i, SetLoading False) | i. i \<in> snd ` set (filter (\<lambda>(dl, i). dl \<le> now w + d) (timers w))}"
    unfolding advance_def Let_def
    using fire_stale_sub [of "filter (\<lambda>(dl, i). dl \<le> now w + d) (timers w)"
        "w\<lparr>now := now w + d, timers := filter (\<lambda>(dl, i). \<not> dl \<le> now w + d) (timers w)\<rparr>"]
    by simp
  then show ?thesis by force
qed

lemma advance_unmounted:
  assumes "\<not> mounted w"
  shows "view (advance d w) = view w"
    and "\<not> mounted (advance d w)"
    and "(dl, i) \<in> set (timers w) \<Longrightarrow> dl \<le> now w + d \<Longrightarrow>
           (i, SetLoading False) \<in> set (stale (advance d w))"
proof -
  let ?ts = "filter (\<lambda>(dl, i). dl \<le> now w + d) (timers w)"
  let ?w = "w\<lparr>now := now w + d, timers := filter (\<lambda>(dl, i). \<not> dl \<le> now w + d) (timers w)\<rparr>"
  have u: "\<not> mounted ?w" using assms by simp
  have a: "advance d w = fold (\<lambda>(dl, i). setLoading i False) ?ts ?w"
    by (simp add: advance_def Let_def)
  show "view (advance d w) = view w"
    unfolding a by (simp add: fire_unmounted(1) [OF u])
  show "\<not> mounted (advance d w)"
    unfolding a by (rule fire_unmounted(2) [OF u])
  show "(i, SetLoading False) \<in> set (stale (advance d w))"
    if "(dl, i) \<in> set (timers w)" "dl \<le> now w + d"
  proof -
    from that have "i \<in> snd ` set ?ts" by force
    then show ?thesis unfolding a fire_unmounted(3) [OF u] by blast
  qed
qed

lemma mount_frame [simp]:
  "mounted (mount w) = True"
  "inst (mount w) = Suc (inst w)"
  "now (mount w) = now w"
  "timers (mount w) = timers w @ [(now w + 3000, Suc (inst w))]"
  "inflight (mount w) = inflight w @ [(query (username (pathname w)), Suc (inst w))]"
  "issued (mount w) = issued w @ [query (username (pathname w))]"
  "stale (mount w) = stale w"
  "console (mount w) = console w"
  "pathname (mount w) = pathname w"
  "view (mount w) = \<lparr>userData = JNull, filteredRepo = [], loading = True\<rparr>"
  by (simp_all add: mount_def loading_effect_def setLoading_def initial_state_def
        commit_def render_def)

lemma navigate_frame [simp]:
  "inst (step (Navigate p) w) = inst w"
  "now (step (Navigate p) w) = now w"
  "timers (step (Navigate p) w) = timers w"
  "stale (step (Navigate p) w) = stale w"
  "console (step (Navigate p) w) = console w"
  "view (step (Navigate p) w) = view w"
  by simp_all

lemma navigate_inflight:
  "set (inflight (step (Navigate p) w)) \<subseteq> set (inflight w) \<union> {(q, inst w) | q. True}"
  by auto

lemma navigate_mounted: "loading (view w) \<Longrightarrow> mounted (step (Navigate p) w) = mounted w"
  by (simp add: commit_loading)

lemma input_frame [simp]:
  "inst (step (Input s) w) = inst w"
  "now (step (Input s) w) = now w"
  "timers (step (Input s) w) = timers w"
  "stale (step (Input s) w) = stale w"
  "console (step (Input s) w) = console w"
  "inflight (step (Input s) w) = inflight w"
  "loading (view (step (Input s) w)) = loading (view w)"
  "userData (view (step (Input s) w)) = userData (view w)"
  by simp_all

lemma input_mounted: "loading (view w) \<Longrightarrow> mounted (step (Input s) w) = mounted w"
  by (simp add: commit_def render_def)

lemma settle_frame [simp]:
  "inst (step (Settle k out) w) = inst w"
  "now (step (Settle k out) w) = now w"
  "timers (step (Settle k out) w) = timers w"
  "loading (view (step (Settle k out) w)) = loading (view w)"
  by simp_all

lemma settle_inflight:
  "set (inflight (step (Settle k out) w)) \<subseteq> set (inflight w)"
  by (auto dest: in_set_takeD in_set_dropD)

lemma settle_stale:
  "set (stale (step (Settle k out) w)) \<subseteq>
     set (stale w) \<union> {(j, c) | j c. (\<exists>q. (q, j) \<in> set (inflight w)) \<and> \<not> (mounted w \<and> j = inst w)}"
proof (cases "k < length (inflight w)")
  case False
  then show ?thesis by simp
next
  case True
  let ?w = "w\<lparr>inflight := take k (inflight w) @ drop (Suc k) (inflight w)\<rparr>"
  let ?j = "snd (inflight w ! k)"
  have "(fst (inflight w ! k), ?j) \<in> set (inflight w)" using True by simp
  then have m: "\<exists>q. (q, ?j) \<in> set (inflight w)" by blast
  have "set (stale (fetchDataUser_settled ?j out ?w)) \<subseteq>
      set (stale w) \<union> {(?j, c) | c. \<not> (mounted w \<and> ?j = inst w)}"
    using settled_stale [of ?j out ?w] by simp
  then show ?thesis using True m by auto
qed

lemma settle_mounted: "loading (view w) \<Longrightarrow> mounted (step (Settle k out) w) = mounted w"
  by (simp add: settled_mounted_loading)

lemma now_run: "now (run evs w) = now w + elapsed evs"
proof (induction evs arbitrary: w)
  case Nil
  then show ?case by (simp add: run_def)
next
  case (Cons e evs)
  have s: "now (step e w) + elapsed evs = now w + elapsed (e # evs)"
    by (cases e) simp_all
  have "run (e # evs) w = run evs (step e w)" by (simp add: run_def)
  then show ?case using Cons [of "step e w"] s by simp
qed

lemma run_Cons: "run (e # evs) w = run evs (step e w)"
  by (simp add: run_def)

lemma run_append: "run (xs @ ys) w = run ys (run xs w)"
  by (simp add: run_def)


lemma armedD:
  assumes "armed t0 i w"
  shows "inst w = i"
    "\<And>dl j. (dl, j) \<in> set (timers w) \<Longrightarrow> j \<le> i"
    "\<And>dl. (dl, i) \<in> set (timers w) \<Longrightarrow> t0 + 3000 = dl \<and> now w < dl"
    "now w < t0 + 3000 \<Longrightarrow> mounted w"
    "now w < t0 + 3000 \<Longrightarrow> (t0 + 3000, i) \<in> set (timers w)"
    "\<And>j c. now w < t0 + 3000 \<Longrightarrow> (j, c) \<in> set (stale w) \<Longrightarrow> j < i"
    "loading (view w) \<longleftrightarrow> now w < t0 + 3000"
    "\<And>q j. (q, j) \<in> set (inflight w) \<Longrightarrow> j \<le> i"
  using assms unfolding armed_def by blast+

lemma armedI:
  assumes "inst w = i"
    "\<And>dl j. (dl, j) \<in> set (timers w) \<Longrightarrow> j \<le> i"
    "\<And>dl. (dl, i) \<in> set (timers w) \<Longrightarrow> t0 + 3000 = dl \<and> now w < dl"
    "now w < t0 + 3000 \<Longrightarrow> mounted w"
    "now w < t0 + 3000 \<Longrightarrow> (t0 + 3000, i) \<in> set (timers w)"
    "\<And>j c. now w < t0 + 3000 \<Longrightarrow> (j, c) \<in> set (stale w) \<Longrightarrow> j < i"
    "loading (view w) \<longleftrightarrow> now w < t0 + 3000"
    "\<And>q j. (q, j) \<in> set (inflight w) \<Longrightarrow> j \<le> i"
  shows "armed t0 i w"
  unfolding armed_def using assms by blast

lemma mount_armed:
  assumes "tidy w"
  shows "armed (now w) (Suc (inst w)) (mount w)"
proof (rule armedI)
  have t: "\<And>dl j. (dl, j) \<in> set (timers w) \<Longrightarrow> j \<le> inst w"
    and f: "\<And>q j. (q, j) \<in> set (inflight w) \<Longrightarrow> j \<le> inst w"
    and s: "\<And>j c. (j, c) \<in> set (stale w) \<Longrightarrow> j \<le> inst w"
    using assms by (auto simp: tidy_def)
  show "inst (mount w) = Suc (inst w)" by simp
  show "j \<le> Suc (inst w)" if "(dl, j) \<in> set (timers (mount w))" for dl j
    using that by (auto dest: t)
  show "now w + 3000 = dl \<and> now (mount w) < dl"
    if "(dl, Suc (inst w)) \<in> set (timers (mount w))" for dl
    using that by (auto dest: t)
  show "mounted (mount w)" by simp
  show "(now w + 3000, Suc (inst w)) \<in> set (timers (mount w))" by simp
  show "j < Suc (inst w)" if "(j, c) \<in> set (stale (mount w))" for j c
    using that by (auto dest: s)
  show "loading (view (mount w)) \<longleftrightarrow> now (mount w) < now w + 3000" by simp
  show "j \<le> Suc (inst w)" if "(q, j) \<in> set (inflight (mount w))" for q j
    using that by (auto dest: f)
qed

text \<open>A step that leaves the clock, the timers and the loading flag alone.\<close>

lemma armed_still:
  assumes a: "armed t0 i w"
    and f: "inst w' = inst w" "now w' = now w" "timers w' = timers w"
      "loading (view w') = loading (view w)"
    and fl: "set (inflight w') \<subseteq> set (inflight w) \<union> {(q, inst w) | q. True}"
    and st: "set (stale w') \<subseteq>
       set (stale w) \<union> {(j, c) | j c. (\<exists>q. (q, j) \<in> set (inflight w)) \<and> \<not> (mounted w \<and> j = inst w)}"
    and m: "loading (view w) \<Longrightarrow> mounted w' = mounted w"
  shows "armed t0 i w'"
proof (rule armedI)
  note d = armedD [OF a]
  show "inst w' = i" using f(1) d(1) by simp
  show "j \<le> i" if "(dl, j) \<in> set (timers w')" for dl j
    using that d(2) f(3) by simp
  show "t0 + 3000 = dl \<and> now w' < dl" if "(dl, i) \<in> set (timers w')" for dl
  proof -
    from that have "(dl, i) \<in> set (timers w)" using f(3) by simp
    from d(3) [OF this] show ?thesis using f(2) by simp
  qed
  show "mounted w'" if "now w' < t0 + 3000"
  proof -
    from that have lt: "now w < t0 + 3000" using f(2) by simp
    then have "loading (view w)" using d(7) by simp
    from m [OF this] d(4) [OF lt] show ?thesis by simp
  qed
  show "(t0 + 3000, i) \<in> set (timers w')" if "now w' < t0 + 3000"
    using that d(5) f(2,3) by simp
  show "j < i" if "now w' < t0 + 3000" "(j, c) \<in> set (stale w')" for j c
  proof -
    from that(1) have lt: "now w < t0 + 3000" using f(2) by simp
    from that(2) st consider "(j, c) \<in> set (stale w)"
      | q where "(q, j) \<in> set (inflight w)" "\<not> (mounted w \<and> j = inst w)"
      by blast
    then show ?thesis
    proof cases
      case 1
      then show ?thesis using d(6) [OF lt] by simp
    next
      case 2
      from d(8) [OF 2(1)] have "j \<le> i" .
      moreover have "j \<noteq> i" using 2(2) d(4) [OF lt] d(1) by simp
      ultimately show ?thesis by simp
    qed
  qed
  show "loading (view w') \<longleftrightarrow> now w' < t0 + 3000"
    using d(7) f(2,4) by simp
  show "j \<le> i" if "(q, j) \<in> set (inflight w')" for q j
  proof -
    from that fl have "(q, j) \<in> set (inflight w) \<or> j = inst w" by blast
    then show ?thesis using d(8) d(1) by auto
  qed
qed

lemma armed_navigate:
  assumes "armed t0 i w"
  shows "armed t0 i (step (Navigate p) w)"
  using assms
proof (rule armed_still)
  show "set (inflight (step (Navigate p) w)) \<subseteq> set (inflight w) \<union> {(q, inst w) | q. True}"
    by (rule navigate_inflight)
  show "loading (view w) \<Longrightarrow> mounted (step (Navigate p) w) = mounted w"
    by (rule navigate_mounted)
qed (simp_all only: navigate_frame, simp_all)

lemma armed_input:
  assumes "armed t0 i w"
  shows "armed t0 i (step (Input s) w)"
  using assms
proof (rule armed_still)
  show "loading (view w) \<Longrightarrow> mounted (step (Input s) w) = mounted w"
    by (rule input_mounted)
qed (simp_all only: input_frame, simp_all)

lemma armed_settle:
  assumes "armed t0 i w"
  shows "armed t0 i (step (Settle k out) w)"
  using assms
proof (rule armed_still)
  show "set (inflight (step (Settle k out) w)) \<subseteq> set (inflight w) \<union> {(q, inst w) | q. True}"
    using settle_inflight [of k out w] by blast
  show "set (stale (step (Settle k out) w)) \<subseteq>
       set (stale w) \<union> {(j, c) | j c. (\<exists>q. (q, j) \<in> set (inflight w)) \<and> \<not> (mounted w \<and> j = inst w)}"
    by (rule settle_stale)
  show "loading (view w) \<Longrightarrow> mounted (step (Settle k out) w) = mounted w"
    by (rule settle_mounted)
qed (simp_all only: settle_frame)

lemma armed_advance:
  assumes "armed t0 i w"
  shows "armed t0 i (step (Advance d) w)"
  unfolding step.simps
proof (rule armedI)
  note a = armedD [OF assms]
  have nodue: "\<not> (\<exists>dl. (dl, inst w) \<in> set (timers w) \<and> dl \<le> now w + d)"
    if "now w + d < t0 + 3000"
  proof
    assume "\<exists>dl. (dl, inst w) \<in> set (timers w) \<and> dl \<le> now w + d"
    then obtain dl where m: "(dl, i) \<in> set (timers w)" and le: "dl \<le> now w + d"
      using a(1) by auto
    from a(3) [OF m] le that show False by simp
  qed
  have keep: "loading (view (advance d w)) = loading (view w)" if "now w + d < t0 + 3000"
    using nodue [OF that] by (simp only: advance_loading) simp
  show "inst (advance d w) = i" using a(1) by simp
  show "j \<le> i" if "(dl, j) \<in> set (timers (advance d w))" for dl j
  proof -
    from that have "(dl, j) \<in> set (timers w)" by simp
    then show ?thesis by (rule a(2))
  qed
  show "t0 + 3000 = dl \<and> now (advance d w) < dl"
    if "(dl, i) \<in> set (timers (advance d w))" for dl
  proof -
    from that have m: "(dl, i) \<in> set (timers w)" and nd: "\<not> dl \<le> now w + d"
      by simp_all
    from a(3) [OF m] nd show ?thesis by simp
  qed
  show "mounted (advance d w)" if "now (advance d w) < t0 + 3000"
  proof -
    from that have lt: "now w + d < t0 + 3000" by simp
    then have lw: "loading (view w)" and mw: "mounted w" using a(4,7) by simp_all
    let ?ts = "filter (\<lambda>(dl, i). dl \<le> now w + d) (timers w)"
    let ?w = "w\<lparr>now := now w + d, timers := filter (\<lambda>(dl, i). \<not> dl \<le> now w + d) (timers w)\<rparr>"
    have ni: "inst w \<notin> snd ` set ?ts" using nodue [OF lt] by force
    have "mounted (fold (\<lambda>(dl, i). setLoading i False) ?ts ?w)"
      by (rule fire_keeps_mounted) (use mw ni in simp_all)
    then show ?thesis by (simp add: advance_def Let_def)
  qed
  show "(t0 + 3000, i) \<in> set (timers (advance d w))" if "now (advance d w) < t0 + 3000"
  proof -
    from that have lt: "now w + d < t0 + 3000" by simp
    then have "(t0 + 3000, i) \<in> set (timers w)" using a(5) by simp
    then show ?thesis using lt by simp
  qed
  show "j < i" if "now (advance d w) < t0 + 3000" "(j, c) \<in> set (stale (advance d w))" for j c
  proof -
    from that(1) have lt: "now w + d < t0 + 3000" by simp
    then have lt0: "now w < t0 + 3000" by simp
    from that(2) advance_stale_sub [of d w] consider "(j, c) \<in> set (stale w)"
      | dl where "(dl, j) \<in> set (timers w)" "dl \<le> now w + d"
      by blast
    then show ?thesis
    proof cases
      case 1
      then show ?thesis using a(6) [OF lt0] by simp
    next
      case 2
      from a(2) [OF 2(1)] have "j \<le> i" .
      moreover have "j \<noteq> i"
      proof
        assume "j = i"
        with 2 a(3) [of dl] lt show False by simp
      qed
      ultimately show ?thesis by simp
    qed
  qed
  show "loading (view (advance d w)) \<longleftrightarrow> now (advance d w) < t0 + 3000"
  proof (cases "now w + d < t0 + 3000")
    case True
    then show ?thesis using keep [OF True] a(7) by simp
  next
    case False
    show ?thesis
    proof (cases "now w < t0 + 3000")
      case True
      then have "(t0 + 3000, inst w) \<in> set (timers w)" "mounted w"
        using a(5) a(1) a(4) by simp_all
      moreover have "t0 + 3000 \<le> now w + d" using False by simp
      ultimately have "mounted w \<and> (\<exists>dl. (dl, inst w) \<in> set (timers w) \<and> dl \<le> now w + d)"
        by blast
      then have "\<not> loading (view (advance d w))"
        by (simp only: advance_loading) simp
      then show ?thesis using False by simp
    next
      case nl: False
      then have "\<not> loading (view w)" using a(7) by simp
      then have "\<not> loading (view (advance d w))"
        by (simp only: advance_loading) simp
      then show ?thesis using False by simp
    qed
  qed
  show "j \<le> i" if "(q, j) \<in> set (inflight (advance d w))" for q j
  proof -
    from that have "(q, j) \<in> set (inflight w)" by simp
    then show ?thesis by (rule a(8))
  qed
qed

lemma step_armed:
  assumes "armed t0 i w" "\<not> remounts e"
  shows "armed t0 i (step e w)"
proof (cases e)
  case Mount
  with assms show ?thesis by simp
next
  case Unmount
  with assms show ?thesis by simp
next
  case (Navigate p)
  then show ?thesis using armed_navigate [OF assms(1)] by simp
next
  case (Settle k out)
  then show ?thesis using armed_settle [OF assms(1)] by simp
next
  case (Advance d)
  then show ?thesis using armed_advance [OF assms(1)] by simp
next
  case (Input s)
  then show ?thesis using armed_input [OF assms(1)] by simp
qed

lemma run_armed:
  "armed t0 i w \<Longrightarrow> list_all (\<lambda>e. \<not> remounts e) evs \<Longrightarrow> armed t0 i (run evs w)"
  by (induction evs arbitrary: w) (simp_all add: run_def step_armed)

lemma tidyI:
  assumes "\<And>dl j. (dl, j) \<in> set (timers w) \<Longrightarrow> j \<le> inst w"
    "\<And>q j. (q, j) \<in> set (inflight w) \<Longrightarrow> j \<le> inst w"
    "\<And>j c. (j, c) \<in> set (stale w) \<Longrightarrow> j \<le> inst w"
  shows "tidy w"
  unfolding tidy_def using assms by blast

lemma tidyD:
  assumes "tidy w"
  shows "\<And>dl j. (dl, j) \<in> set (timers w) \<Longrightarrow> j \<le> inst w"
    "\<And>q j. (q, j) \<in> set (inflight w) \<Longrightarrow> j \<le> inst w"
    "\<And>j c. (j, c) \<in> set (stale w) \<Longrightarrow> j \<le> inst w"
  using assms unfolding tidy_def by blast+

lemma tidy_still:
  assumes t: "tidy w"
    and f: "inst w' = inst w" "set (timers w') \<subseteq> set (timers w)"
    and fl: "set (inflight w') \<subseteq> set (inflight w) \<union> {(q, inst w) | q. True}"
    and st: "set (stale w') \<subseteq>
       set (stale w) \<union> {(j, c) | j c. (\<exists>q. (q, j) \<in> set (inflight w)) \<or> (\<exists>dl. (dl, j) \<in> set (timers w))}"
  shows "tidy w'"
proof (rule tidyI)
  note d = tidyD [OF t]
  show "j \<le> inst w'" if "(dl, j) \<in> set (timers w')" for dl j
    using that f d(1) by auto
  show "j \<le> inst w'" if "(q, j) \<in> set (inflight w')" for q j
  proof -
    from that fl have "(q, j) \<in> set (inflight w) \<or> j = inst w" by blast
    then show ?thesis using d(2) f(1) by auto
  qed
  show "j \<le> inst w'" if "(j, c) \<in> set (stale w')" for j c
  proof -
    from that st consider "(j, c) \<in> set (stale w)" | q where "(q, j) \<in> set (inflight w)"
      | dl where "(dl, j) \<in> set (timers w)"
      by blast
    then show ?thesis using d f(1) by cases auto
  qed
qed

lemma step_tidy:
  assumes "tidy w"
  shows "tidy (step e w)"
proof (cases e)
  case Mount
  note d = tidyD [OF assms]
  have "tidy (mount w)"
    by (rule tidyI) (auto dest: d le_SucI)
  then show ?thesis using Mount assms by simp
next
  case Unmount
  then show ?thesis using assms by (simp add: tidy_def)
next
  case (Navigate p)
  have "tidy (step (Navigate p) w)"
    using assms
  proof (rule tidy_still)
    show "set (inflight (step (Navigate p) w)) \<subseteq> set (inflight w) \<union> {(q, inst w) | q. True}"
      by (rule navigate_inflight)
    show "inst (step (Navigate p) w) = inst w" by (rule navigate_frame)
    show "set (timers (step (Navigate p) w)) \<subseteq> set (timers w)"
      by (simp only: navigate_frame order_refl)
    show "set (stale (step (Navigate p) w)) \<subseteq>
       set (stale w) \<union> {(j, c) | j c. (\<exists>q. (q, j) \<in> set (inflight w)) \<or> (\<exists>dl. (dl, j) \<in> set (timers w))}"
      by (simp only: navigate_frame) blast
  qed
  then show ?thesis using Navigate by simp
next
  case (Settle k out)
  have "tidy (step (Settle k out) w)"
    using assms
  proof (rule tidy_still)
    show "set (inflight (step (Settle k out) w)) \<subseteq> set (inflight w) \<union> {(q, inst w) | q. True}"
      using settle_inflight [of k out w] by blast
    show "set (stale (step (Settle k out) w)) \<subseteq>
       set (stale w) \<union> {(j, c) | j c. (\<exists>q. (q, j) \<in> set (inflight w)) \<or> (\<exists>dl. (dl, j) \<in> set (timers w))}"
      using settle_stale [of k out w] by blast
    show "inst (step (Settle k out) w) = inst w" by (rule settle_frame)
    show "set (timers (step (Settle k out) w)) \<subseteq> set (timers w)"
      by (simp only: settle_frame order_refl)
  qed
  then show ?thesis using Settle by simp
next
  case (Advance d)
  have "tidy (advance d w)"
    using assms
  proof (rule tidy_still)
    show "set (stale (advance d w)) \<subseteq>
       set (stale w) \<union> {(j, c) | j c. (\<exists>q. (q, j) \<in> set (inflight w)) \<or> (\<exists>dl. (dl, j) \<in> set (timers w))}"
      using advance_stale_sub [of d w] by blast
    show "inst (advance d w) = inst w" by (rule advance_frame)
    show "set (timers (advance d w)) \<subseteq> set (timers w)"
      by (simp only: advance_frame) (rule filter_is_subset)
    show "set (inflight (advance d w)) \<subseteq> set (inflight w) \<union> {(q, inst w) | q. True}"
      by (simp only: advance_frame) blast
  qed
  then show ?thesis using Advance by simp
next
  case (Input s)
  have "tidy (step (Input s) w)"
    using assms
  proof (rule tidy_still)
    show "inst (step (Input s) w) = inst w" by (rule input_frame)
    show "set (timers (step (Input s) w)) \<subseteq> set (timers w)"
      by (simp only: input_frame order_refl)
    show "set (inflight (step (Input s) w)) \<subseteq> set (inflight w) \<union> {(q, inst w) | q. True}"
      by (simp only: input_frame) blast
    show "set (stale (step (Input s) w)) \<subseteq>
       set (stale w) \<union> {(j, c) | j c. (\<exists>q. (q, j) \<in> set (inflight w)) \<or> (\<exists>dl. (dl, j) \<in> set (timers w))}"
      by (simp only: input_frame) blast
  qed
  then show ?thesis using Input by simp
qed

lemma run_tidy: "tidy w \<Longrightarrow> tidy (run evs w)"
  by (induction evs arbitrary: w) (simp_all add: run_def step_tidy)

lemma boot_tidy: "tidy (boot p)"
  by (simp add: tidy_def boot_def)



subsection \<open>The fetch and the query\<close>


lemma prepend_Nil [simp]: "prepend [] x = x"
  by (cases x) simp_all

lemma prepend_prepend [simp]: "prepend xs (prepend ys x) = prepend (xs @ ys) x"
  by (cases x) simp_all

lemma scan_string_body:
  "\<forall>c\<in>set u. string_char c \<Longrightarrow>
     scan (InStr a) (u @ dq # rest) = prepend [StrTok (a @ u)] (scan Idle rest)"
proof (induction u arbitrary: a)
  case Nil
  then show ?case by (simp add: source_char_def)
next
  case (Cons c u)
  then have c: "string_char c" and u: "\<forall>c\<in>set u. string_char c"
    by simp_all
  from c have c': "source_char c" "c \<noteq> dq" "c \<noteq> CHR 0x5C"
    by (simp_all add: string_char_def)
  show ?case
    using c c' Cons.IH [OF u, of "a @ [c]"] by simp
qed

lemma scan_head:
  "scan Idle (query_head @ rest) =
     prepend [Name ''query'', Punct (CHR ''{''), Name ''user'', Punct (CHR ''(''),
              Name ''login'', Punct (CHR '':'')] (scan (InStr []) rest)"
  by (simp add: query_head_def source_char_def start_def ignored_def punctuator_def
        name_start_def digit_def)

lemma scan_tail:
  "scan Idle (tl query_tail) = Some (drop 7 (profile_query_tokens u))"
  by (simp add: query_tail_def source_char_def start_def ignored_def punctuator_def
        name_start_def digit_def profile_query_tokens_def)

lemma query_tail_quote: "query_tail = dq # tl query_tail"
  by (simp add: query_tail_def)





section \<open>The claims\<close>







text \<open>
  C3, as amended. For every username made of characters that may stand for themselves
  in a quoted string (no double quote, backslash, line end or other control character),
  the query is the document that requests login, name, avatarUrl, url, the total
  counts of followers and following, and the first 50 repositories with id, name and
  url, for that username as the login, and nothing else; the effect issues that one
  query.
\<close>

theorem query_requests_profile_fields:
  assumes "\<forall>c\<in>set u. string_char c"
  shows "gql_tokens (query u) = Some (profile_query_tokens u) \<and>
         issued (fetch_effect w) = issued w @ [query (username (pathname w))]"
proof -
  have "query u = query_head @ (u @ dq # tl query_tail)"
    using query_tail_quote by (simp add: query_def)
  then have "gql_tokens (query u) =
      prepend [Name ''query'', Punct (CHR ''{''), Name ''user'', Punct (CHR ''(''),
               Name ''login'', Punct (CHR '':'')]
        (prepend [StrTok u] (Some (drop 7 (profile_query_tokens u))))"
    using scan_string_body [OF assms, of "[]" "tl query_tail"] scan_tail [of u]
    by (simp only: gql_tokens_def scan_head append_Nil)
  then have "gql_tokens (query u) = Some (profile_query_tokens u)"
    by (simp add: profile_query_tokens_def)
  then show ?thesis by simp
qed

theorem query_requests_profile_fields_witness:
  "gql_tokens (query ''octocat'') = Some (profile_query_tokens ''octocat'')"
  using query_requests_profile_fields [of "''octocat''"]
  by (simp add: string_char_def source_char_def line_end_def)

text \<open>
  C3 as stated fails: a path whose username closes the string literal makes the query
  request another field of another user; a backslash, a line end or a control character
  in the username leaves no well-formed document at all.
\<close>

theorem query_injection_counterexample:
  "gql_tokens (query (username (''/x'' @ [dq] @ '') { email } b: user(login: '' @ [dq] @ ''y'')))
     \<noteq> Some (profile_query_tokens
                (username (''/x'' @ [dq] @ '') { email } b: user(login: '' @ [dq] @ ''y''))) \<and>
   gql_tokens (query (username (''/x'' @ [dq] @ '') { email } b: user(login: '' @ [dq] @ ''y''))) =
     Some ([Name ''query'', Punct (CHR ''{''),
            Name ''user'', Punct (CHR ''(''), Name ''login'', Punct (CHR '':''), StrTok ''x'',
            Punct (CHR '')''), Punct (CHR ''{''), Name ''email'', Punct (CHR ''}''),
            Name ''b'', Punct (CHR '':'')] @ drop 2 (profile_query_tokens ''y'')) \<and>
   gql_tokens (query (username (''/x'' @ [CHR 0x5C]))) = None \<and>
   gql_tokens (query (username (''/x'' @ [nl] @ ''y''))) = None \<and>
   gql_tokens (query (username (''/x'' @ [CHR 0x01]))) = None"
  by (simp add: gql_tokens_def query_def query_head_def query_tail_def username_def
        source_char_def string_char_def unescape_def
        start_def ignored_def punctuator_def name_start_def digit_def line_end_def
        profile_query_tokens_def)

text \<open>
  C4. The username is the path without its first character, so a path that begins
  with the separator loses exactly that separator. The query holds the username
  unchanged, character by character, between the fixed head and the fixed tail of the
  template, and is longer than the username by the length of those two only: nothing
  is escaped, whatever the characters are.
\<close>

theorem username_verbatim:
  "username (CHR ''/'' # rest) = rest \<and>
   username p = drop 1 p \<and>
   length query_head = 29 \<and>
   take (length rest) (drop 29 (query (username (CHR ''/'' # rest)))) = rest \<and>
   drop (29 + length rest) (query (username (CHR ''/'' # rest))) = query_tail \<and>
   length (query (username (CHR ''/'' # rest))) = length rest + length query_head + length query_tail"
proof -
  have l: "length query_head = 29" by (simp add: query_head_def)
  have u: "username (CHR ''/'' # rest) = rest" by (simp add: username_def)
  show ?thesis
    unfolding u by (simp add: l query_def username_def)
qed

text \<open>
  C5, as amended. Only the access to the profile value itself is optional. With the
  loading flag off and a profile other than \<^verbatim>\<open>null\<close>, the render returns a tree, rather
  than raising a TypeError, exactly when the profile is \<^verbatim>\<open>undefined\<close>, or its
  \<^verbatim>\<open>followers\<close> and \<^verbatim>\<open>following\<close> are neither \<^verbatim>\<open>undefined\<close> nor \<^verbatim>\<open>null\<close> and its
  \<^verbatim>\<open>repositories.nodes\<close> is an array without such elements. Absent \<^verbatim>\<open>login\<close>,
  \<^verbatim>\<open>name\<close>, \<^verbatim>\<open>avatarUrl\<close> or \<^verbatim>\<open>url\<close> never make it raise, and with an \<^verbatim>\<open>undefined\<close>
  profile every embedded expression of the tree is \<^verbatim>\<open>undefined\<close>, which shows as nothing.
\<close>

theorem profile_render_tolerance:
  assumes "\<not> loading st" "userData st \<noteq> JNull"
  shows "((\<exists>v. render st = Inr v) \<longleftrightarrow>
           (userData st = JUndefined \<or>
            (\<not> nullish (opt_member (userData st) ''followers'') \<and>
             \<not> nullish (opt_member (userData st) ''following'') \<and>
             (\<exists>rs. opt_chain2 (userData st) ''repositories'' ''nodes'' = Inr (JArr rs) \<and>
                   (\<forall>r\<in>set rs. \<not> nullish r))))) \<and>
         (userData st = JUndefined \<longrightarrow>
            (\<exists>v. render st = Inr v \<and>
                 exprs v = [JUndefined, JUndefined, JUndefined, JUndefined, JUndefined]))"
proof -
  have n: "nullish (userData st) \<longleftrightarrow> userData st = JUndefined"
    using assms(2) by (cases "userData st") simp_all
  have "(\<exists>v. render st = Inr v) \<longleftrightarrow> (\<exists>v. profile_view st = Inr v)"
    using assms by (simp add: render_def and_then_ok_iff)
  then have 1: "(\<exists>v. render st = Inr v) \<longleftrightarrow>
           (userData st = JUndefined \<or>
            (\<not> nullish (opt_member (userData st) ''followers'') \<and>
             \<not> nullish (opt_member (userData st) ''following'') \<and>
             (\<exists>rs. opt_chain2 (userData st) ''repositories'' ''nodes'' = Inr (JArr rs) \<and>
                   (\<forall>r\<in>set rs. \<not> nullish r))))"
    unfolding profile_view_ok_iff user_info_ok_iff repositories_map_ok_iff n
    by (auto simp: opt_chain2_def opt_member_def)
  have 2: "\<exists>v. render st = Inr v \<and>
             exprs v = [JUndefined, JUndefined, JUndefined, JUndefined, JUndefined]"
    if "userData st = JUndefined"
    using that assms(1)
    by (simp add: render_def profile_view_def user_info_def user_repositories_def
          repositories_map_def opt_chain2_def opt_member_def)
  from 1 2 show ?thesis by blast
qed

theorem profile_render_tolerance_witness:
  "(\<exists>v. render \<lparr>userData = JUndefined, filteredRepo = [], loading = False\<rparr> = Inr v \<and>
        exprs v = [JUndefined, JUndefined, JUndefined, JUndefined, JUndefined]) \<and>
   (\<exists>v. render \<lparr>userData = JObj [(''followers'', JObj []), (''following'', JObj []),
                                    (''repositories'', JObj [(''nodes'', JArr [JObj []])])],
                   filteredRepo = [], loading = False\<rparr> = Inr v)"
  using profile_render_tolerance [of "\<lparr>userData = JUndefined, filteredRepo = [], loading = False\<rparr>"]
    profile_render_tolerance [of "\<lparr>userData = JObj [(''followers'', JObj []), (''following'', JObj []),
                                    (''repositories'', JObj [(''nodes'', JArr [JObj []])])],
                   filteredRepo = [], loading = False\<rparr>"]
  by (simp add: opt_member_def opt_chain2_def)

text \<open>
  C5 as stated fails: a profile object without \<^verbatim>\<open>followers\<close> makes the render raise.
\<close>

theorem missing_followers_counterexample:
  "render \<lparr>userData = JObj [(''login'', JStr ''octocat''), (''name'', JStr ''The Octocat''),
                             (''avatarUrl'', JStr ''a.png''),
                             (''url'', JStr ''https://github.com/octocat''),
                             (''following'', JObj [(''totalCount'', JNum 9)]),
                             (''repositories'', JObj [(''nodes'', JArr [])])],
            filteredRepo = [], loading = False\<rparr> = Inl TypeError"
  by (simp add: render_def profile_view_def user_info_def opt_chain2_def)



text \<open>
  C7, as amended. For every mount that is torn down before 3000 ms have passed, the
  timer stays scheduled: nothing cancels it. Once the 3000 ms have passed, its callback
  runs \<^verbatim>\<open>setLoading(false)\<close> for the torn-down instance, a call recorded as late that it
  had not made before; the state on screen does not change.
\<close>

theorem timer_survives_unmount:
  assumes "\<not> mounted (run pre (boot p))" "list_all (\<lambda>e. \<not> remounts e) evs"
    and "elapsed evs < 3000" "3000 \<le> elapsed evs + d"
  shows "(now (run pre (boot p)) + 3000, Suc (inst (run pre (boot p))))
           \<in> set (timers (run (pre @ Mount # evs @ [Unmount]) (boot p))) \<and>
         (Suc (inst (run pre (boot p))), SetLoading False)
           \<notin> set (stale (run (pre @ Mount # evs @ [Unmount]) (boot p))) \<and>
         (Suc (inst (run pre (boot p))), SetLoading False)
           \<in> set (stale (run (pre @ Mount # evs @ [Unmount, Advance d]) (boot p))) \<and>
         view (run (pre @ Mount # evs @ [Unmount, Advance d]) (boot p)) =
           view (run (pre @ Mount # evs @ [Unmount]) (boot p))"
proof -
  let ?w = "run pre (boot p)"
  let ?i = "Suc (inst ?w)"
  let ?m = "run evs (mount ?w)"
  let ?u = "?m\<lparr>mounted := False\<rparr>"
  have a0: "armed (now ?w) ?i (mount ?w)"
    by (rule mount_armed) (simp add: run_tidy boot_tidy)
  note a = armedD [OF run_armed [OF a0 assms(2)]]
  have n: "now ?m = now ?w + elapsed evs"
    by (simp add: now_run)
  have lt: "now ?m < now ?w + 3000" using n assms(3) by simp
  have r1: "run (pre @ Mount # evs @ [Unmount]) (boot p) = ?u"
    using assms(1) by (simp add: run_append run_Cons) (simp add: run_def)
  have r2: "run (pre @ Mount # evs @ [Unmount, Advance d]) (boot p) = advance d ?u"
    using assms(1) by (simp add: run_append run_Cons) (simp add: run_def)
  have t: "(now ?w + 3000, ?i) \<in> set (timers ?m)"
    using a(5) [OF lt] .
  have s1: "(?i, SetLoading False) \<notin> set (stale ?m)"
    using a(6) [OF lt] by blast
  have um: "\<not> mounted ?u" by simp
  have "(now ?w + 3000, ?i) \<in> set (timers ?u)" "now ?w + 3000 \<le> now ?u + d"
    using t n assms(4) by simp_all
  then have s2: "(?i, SetLoading False) \<in> set (stale (advance d ?u))"
    by (rule advance_unmounted(3) [OF um])
  have v: "view (advance d ?u) = view ?u"
    by (rule advance_unmounted(1) [OF um])
  show ?thesis
    unfolding r1 r2 using t s1 s2 v by simp
qed

theorem timer_survives_unmount_witness:
  "(3000, Suc 0) \<in> set (timers (run [Mount, Advance 1000, Unmount] (boot ''/octocat''))) \<and>
   (Suc 0, SetLoading False) \<in>
      set (stale (run [Mount, Advance 1000, Unmount, Advance 2000] (boot ''/octocat'')))"
  using timer_survives_unmount [of "[]" "''/octocat''" "[Advance 1000]" 2000]
  by (simp add: run_def boot_def)

text \<open>
  C7 as stated fails: after mount and unmount the timer is still pending, and it fires.
\<close>

theorem timer_cancel_counterexample:
  "timers (run [Mount, Unmount] (boot ''/octocat'')) = [(3000, 1)] \<and>
   stale (run [Mount, Unmount, Advance 3000] (boot ''/octocat'')) = [(1, SetLoading False)]"
  by (simp add: run_def boot_def advance_def Let_def setLoading_def)

text \<open>
  C8. For a fetched profile of type \<open>User\<close>, the rendered tree holds one
  \<^verbatim>\<open>UserRepositories\<close> element per repository, in the order of the list; each receives
  the array holding exactly that repository, and the shared filter string.
\<close>

theorem repositories_one_call_each:
  "\<not> loading st \<Longrightarrow> userData st = user_to_js u \<Longrightarrow>
     \<exists>v. render st = Inr v \<and>
         by_tag ''UserRepositories'' v =
           map (\<lambda>r. Elem ''UserRepositories''
                  [(''key'', Val (JStr (repo_id r))),
                   (''filter'', Val (JStr (filteredRepo st))),
                   (''repositories'', Val (JArr [repo_to_js r]))] [])
               (repositories_nodes u)"
proof -
  assume a: "\<not> loading st" "userData st = user_to_js u"
  let ?items = "map (\<lambda>r. Elem ''UserRepositories''
                  [(''key'', Val (JStr (repo_id r))),
                   (''filter'', Val (JStr (filteredRepo st))),
                   (''repositories'', Val (JArr [repo_to_js r]))] [])
               (repositories_nodes u)"
  obtain info where info: "user_info (user_to_js u) = Inr info"
      "by_tag ''UserRepositories'' info = []"
    using user_info_typed by blast
  have nn: "user_to_js u \<noteq> JNull" by (simp add: user_to_js_def)
  have sh: "\<forall>x\<in>set ?items. \<exists>ps. x = Elem ''UserRepositories'' ps []" by auto
  have d: "concat (map descendants ?items) = ?items"
    by (rule by_tag_items_same [OF sh])
  have f: "filter (has_tag ''UserRepositories'') ?items = ?items"
    by (rule filter_same_tag [OF sh])
  have r: "render st = Inr (Elem ''UserComponentStyles'' [] [Elem ''Fragment'' []
     [info, Elem ''div'' [(''className'', Val (JStr ''user__info__repositories''))]
         [Elem ''SearchBar'' [(''filter'', Val (JStr (filteredRepo st))),
                              (''setFilter'', Setter ''setFilteredRepo'')] [],
          Elem ''div'' [(''className'', Val (JStr ''user__info__repositories__map''))]
            [Items ?items]]]])"
    using a nn info(1)
    by (simp add: render_def profile_view_def user_repositories_def repositories_map_typed)
  have "by_tag ''UserRepositories'' (Elem ''UserComponentStyles'' [] [Elem ''Fragment'' []
     [info, Elem ''div'' [(''className'', Val (JStr ''user__info__repositories''))]
         [Elem ''SearchBar'' [(''filter'', Val (JStr (filteredRepo st))),
                              (''setFilter'', Setter ''setFilteredRepo'')] [],
          Elem ''div'' [(''className'', Val (JStr ''user__info__repositories__map''))]
            [Items ?items]]]]) = ?items"
    using info(2) unfolding by_tag_def
    by (simp only: descendants.simps list.map concat.simps append_Nil2 filter.simps filter_append has_tag.simps d f) simp
  with r show ?thesis by simp
qed

theorem repositories_one_call_each_witness:
  "\<exists>v. render \<lparr>userData = user_to_js
                 \<lparr>login = ''octocat'', user_name = ''The Octocat'', avatarUrl = ''a.png'',
                  user_url = ''https://github.com/octocat'', followers_totalCount = 3,
                  following_totalCount = 9, repositories_nodes =
                    [\<lparr>repo_id = ''R1'', repo_name = ''Hello-World'', repo_url = ''u1''\<rparr>,
                     \<lparr>repo_id = ''R2'', repo_name = ''Spoon-Knife'', repo_url = ''u2''\<rparr>]\<rparr>,
              filteredRepo = ''Hello'', loading = False\<rparr> = Inr v \<and>
       by_tag ''UserRepositories'' v =
         [Elem ''UserRepositories''
            [(''key'', Val (JStr ''R1'')), (''filter'', Val (JStr ''Hello'')),
             (''repositories'', Val (JArr [JObj [(''id'', JStr ''R1''),
                (''name'', JStr ''Hello-World''), (''url'', JStr ''u1'')]]))] [],
          Elem ''UserRepositories''
            [(''key'', Val (JStr ''R2'')), (''filter'', Val (JStr ''Hello'')),
             (''repositories'', Val (JArr [JObj [(''id'', JStr ''R2''),
                (''name'', JStr ''Spoon-Knife''), (''url'', JStr ''u2'')]]))] []]"
  using repositories_one_call_each [of "\<lparr>userData = user_to_js
                 \<lparr>login = ''octocat'', user_name = ''The Octocat'', avatarUrl = ''a.png'',
                  user_url = ''https://github.com/octocat'', followers_totalCount = 3,
                  following_totalCount = 9, repositories_nodes =
                    [\<lparr>repo_id = ''R1'', repo_name = ''Hello-World'', repo_url = ''u1''\<rparr>,
                     \<lparr>repo_id = ''R2'', repo_name = ''Spoon-Knife'', repo_url = ''u2''\<rparr>]\<rparr>,
              filteredRepo = ''Hello'', loading = False\<rparr>"
      "\<lparr>login = ''octocat'', user_name = ''The Octocat'', avatarUrl = ''a.png'',
                  user_url = ''https://github.com/octocat'', followers_totalCount = 3,
                  following_totalCount = 9, repositories_nodes =
                    [\<lparr>repo_id = ''R1'', repo_name = ''Hello-World'', repo_url = ''u1''\<rparr>,
                     \<lparr>repo_id = ''R2'', repo_name = ''Spoon-Knife'', repo_url = ''u2''\<rparr>]\<rparr>"]
  by (simp add: repo_to_js_def)

text \<open>
  C9. \<open>Card\<close> is a function of its two props alone. Its tree has one heading, showing
  the name, and one link, whose text and target are the url and which opens in a new
  browsing context; the name and the url are its only embedded expressions.
\<close>

theorem card_shape:
  "by_tag ''h3'' (Card name url) =
     [Elem ''h3'' [(''className'', Val (JStr ''card__box__title''))] [Expr (JStr name)]] \<and>
   by_tag ''a'' (Card name url) =
     [Elem ''a'' [(''className'', Val (JStr ''card__box__url'')),
                  (''href'', Val (JStr url)), (''target'', Val (JStr ''_blank''))]
        [Expr (JStr url)]] \<and>
   exprs (Card name url) = [JStr name, JStr url]"
  by (simp add: Card_def by_tag_def)



end
